theory Spec2Isabelle
  imports Main
begin

section \<open>The scheduled poster of \<^verbatim>\<open>sparrow.py\<close>\<close>

text \<open>
  A shallow embedding of class \<^verbatim>\<open>TwitterBot\<close> and of the Lambda entry point
  \<^verbatim>\<open>handler\<close>. Every method returns a pair: its outcome (\<open>Inl\<close> an exception that
  leaves the method, \<open>Inr\<close> the returned value) and the list of the effects it performed,
  in order. The external collaborators (file system, environment variables, KMS, the
  Twitter client, the random generator, the platform's sleep) are the fields of one
  record of services, over which every theorem is quantified.

  Scope of the model: the configuration has the shape of section 6 of the specification
  (every recognised key present, numbers of the retry policy integral, so that \<^verbatim>\<open>**\<close> and
  \<^verbatim>\<open>min\<close> are exact); an exception is an instance of Python's \<^verbatim>\<open>Exception\<close>, the class
  the \<^verbatim>\<open>except\<close> clauses of the source catch.
\<close>

subsection \<open>Exceptions, log records and effects\<close>

text \<open>An exception with the text that \<^verbatim>\<open>str(e)\<close> gives.\<close>

datatype exn =
    FileNotFoundError string
  | JSONDecodeError string
  | ValueError string
  | KeyError string
  | OtherException string

fun str_exn :: "exn \<Rightarrow> string" where
  "str_exn (FileNotFoundError m) = m"
| "str_exn (JSONDecodeError m) = m"
| "str_exn (ValueError m) = m"
| "str_exn (KeyError m) = m"
| "str_exn (OtherException m) = m"

text \<open>A Python \<^verbatim>\<open>str\<close> whose length matters is the list of its code points.\<close>

type_synonym pystr = "nat list"

datatype level = DEBUG | INFO | WARNING | ERROR | CRITICAL

text \<open>
  The messages the source formats, one constructor per f-string, carrying the values
  the f-string interpolates.
\<close>

datatype log_msg =
    DecryptingCredentials
  | KmsDecryptionFailed exn
  | CredentialsFileNotFound string
  | UsingEnvironmentVariable string
  | ClientInitialized
  | ClientSetupFailed exn
  | OperationFailedAfter int exn
  | AttemptFailed nat exn int
  | TweetSent pystr
  | SendFailed exn
  | NoTweetsConfigured
  | HandlerError exn

datatype event =
    Invoke
  | Sleep int
  | Log level log_msg

text \<open>
  \<open>Invoke\<close> is one call of the retried operation, \<open>Sleep d\<close> a call of
  \<^verbatim>\<open>time.sleep(d)\<close> that returned, \<open>Log l m\<close> a call of the logger at level \<open>l\<close>.
\<close>

definition invocations :: "event list \<Rightarrow> nat" where
  "invocations tr = count_list tr Invoke"

fun delays :: "event list \<Rightarrow> int list" where
  "delays [] = []"
| "delays (Sleep d # tr) = d # delays tr"
| "delays (Invoke # tr) = delays tr"
| "delays (Log l m # tr) = delays tr"

subsection \<open>Configuration and services\<close>

record config =
  logging_level :: level
  logging_format :: string
  credentials_file :: string
  use_kms :: bool
  max_attempts :: int
  backoff_factor :: int
  max_delay :: int
  tweets :: "pystr list"

text \<open>
  The collaborators. \<open>read_config\<close> and \<open>read_credentials\<close> are
  \<^verbatim>\<open>open(path)\<close> followed by \<^verbatim>\<open>json.load\<close>; \<open>kms_client\<close> is
  \<^verbatim>\<open>boto3.client('kms')\<close> (\<open>None\<close> when it returns); \<open>kms_decrypt\<close> is the base64
  decoding, the call of the service and the UTF-8 decoding of the plaintext;
  \<open>twython\<close> is the constructor of the client; \<open>update_status t i\<close> is the outcome of
  posting \<open>t\<close> at the attempt of index \<open>i\<close>; \<open>random_choice\<close> is the draw of
  \<^verbatim>\<open>random.choice\<close>; \<open>sleep_range\<close> is the platform's check of a non-negative
  duration against its timestamp range (\<open>None\<close> when the duration is accepted).
\<close>

record services =
  read_config :: "string \<Rightarrow> exn + config"
  read_credentials :: "string \<Rightarrow> exn + (string \<rightharpoonup> string)"
  environ :: "string \<rightharpoonup> string"
  kms_client :: "exn option"
  kms_decrypt :: "string \<Rightarrow> exn + string"
  twython :: "string \<Rightarrow> string \<Rightarrow> string \<Rightarrow> string \<Rightarrow> exn option"
  update_status :: "pystr \<Rightarrow> nat \<Rightarrow> exn + string"
  random_choice :: nat
  sleep_range :: "int \<Rightarrow> exn option"

subsection \<open>The retrying executor\<close>

text \<open>
  \<^verbatim>\<open>time.sleep(secs)\<close>: a negative duration raises \<^verbatim>\<open>ValueError\<close>; the result is
  \<open>None\<close> when the call returns.
\<close>

definition time_sleep :: "services \<Rightarrow> int \<Rightarrow> exn option" where
  "time_sleep sv secs =
     (if secs < 0 then Some (ValueError ''sleep length must be non-negative'')
      else sleep_range sv secs)"

text \<open>\<^verbatim>\<open>delay = min(backoff_factor ** attempt, max_delay)\<close>\<close>

definition delay :: "config \<Rightarrow> nat \<Rightarrow> int" where
  "delay cfg attempt = min (backoff_factor cfg ^ attempt) (max_delay cfg)"

text \<open>
  The body of \<^verbatim>\<open>for attempt in range(max_attempts)\<close>, by recursion over the indices
  still to run. \<open>func i\<close> is the outcome of the operation when it is invoked at attempt
  \<open>i\<close>. An exception raised inside the \<^verbatim>\<open>except\<close> block (by \<^verbatim>\<open>time.sleep\<close>) leaves
  the method. A loop that runs out of indices falls off the end of the method, which
  then returns \<^verbatim>\<open>None\<close>.
\<close>

fun attempts :: "services \<Rightarrow> config \<Rightarrow> (nat \<Rightarrow> exn + 'a) \<Rightarrow> nat list
    \<Rightarrow> (exn + 'a option) \<times> event list" where
  "attempts sv cfg func [] = (Inr None, [])"
| "attempts sv cfg func (attempt # rest) =
     (case func attempt of
        Inr r \<Rightarrow> (Inr (Some r), [Invoke])
      | Inl e \<Rightarrow>
          if int attempt = max_attempts cfg - 1
          then (Inl e, [Invoke, Log ERROR (OperationFailedAfter (max_attempts cfg) e)])
          else
            (case time_sleep sv (delay cfg attempt) of
               Some err \<Rightarrow>
                 (Inl err,
                  [Invoke, Log WARNING (AttemptFailed (attempt + 1) e (delay cfg attempt))])
             | None \<Rightarrow>
                 apsnd (\<lambda>tr. Invoke
                          # Log WARNING (AttemptFailed (attempt + 1) e (delay cfg attempt))
                          # Sleep (delay cfg attempt) # tr)
                   (attempts sv cfg func rest)))"

definition retry_with_backoff :: "services \<Rightarrow> config \<Rightarrow> (nat \<Rightarrow> exn + 'a)
    \<Rightarrow> (exn + 'a option) \<times> event list" where
  "retry_with_backoff sv cfg func = attempts sv cfg func [0 ..< nat (max_attempts cfg)]"

subsection \<open>Configuration and credentials\<close>

text \<open>
  \<^verbatim>\<open>_load_config\<close>: a missing file and malformed JSON are raised again under a message
  of the method's own; any other exception of the read leaves the method as it is.
  \<^verbatim>\<open>_setup_logging\<close> installs a handler and a level on the module's logger; on a
  configuration of the modelled shape it raises nothing and performs none of the
  effects recorded here, so it has no definition.
\<close>

definition load_config :: "services \<Rightarrow> string \<Rightarrow> exn + config" where
  "load_config sv config_path =
     (case read_config sv config_path of
        Inr c \<Rightarrow> Inr c
      | Inl (FileNotFoundError m) \<Rightarrow>
          Inl (FileNotFoundError (''Configuration file '' @ config_path @ '' not found''))
      | Inl (JSONDecodeError m) \<Rightarrow>
          Inl (ValueError (''Invalid JSON in configuration file: '' @ m))
      | Inl e \<Rightarrow> Inl e)"

text \<open>
  \<^verbatim>\<open>_decrypt_with_kms\<close>: the information record is written after the client was
  built and before the service is called; every exception of the \<^verbatim>\<open>try\<close> block is
  logged and raised again.
\<close>

definition decrypt_with_kms :: "services \<Rightarrow> string \<Rightarrow> (exn + string) \<times> event list" where
  "decrypt_with_kms sv ciphertext =
     (case kms_client sv of
        Some e \<Rightarrow> (Inl e, [Log ERROR (KmsDecryptionFailed e)])
      | None \<Rightarrow>
          (case kms_decrypt sv ciphertext of
             Inl e \<Rightarrow>
               (Inl e, [Log INFO DecryptingCredentials, Log ERROR (KmsDecryptionFailed e)])
           | Inr plaintext \<Rightarrow> (Inr plaintext, [Log INFO DecryptingCredentials])))"

text \<open>The dictionary \<^verbatim>\<open>cred_mapping\<close>, in the order \<^verbatim>\<open>.items()\<close> iterates it.\<close>

definition cred_mapping :: "(string \<times> string) list" where
  "cred_mapping =
     [(''consumer_key'', ''TWITTER_CONSUMER_KEY''),
      (''consumer_secret'', ''TWITTER_CONSUMER_SECRET''),
      (''access_token_key'', ''TWITTER_ACCESS_TOKEN''),
      (''access_token_secret'', ''TWITTER_ACCESS_TOKEN_SECRET'')]"

text \<open>
  The loop \<^verbatim>\<open>for key, env_var in cred_mapping.items()\<close> of \<^verbatim>\<open>_load_credentials\<close>,
  over the entries still to resolve, with the dictionary \<^verbatim>\<open>result\<close> built so far.
\<close>

fun credentials_loop :: "services \<Rightarrow> bool \<Rightarrow> (string \<rightharpoonup> string) \<Rightarrow> (string \<times> string) list
    \<Rightarrow> (string \<rightharpoonup> string) \<Rightarrow> (exn + (string \<rightharpoonup> string)) \<times> event list" where
  "credentials_loop sv kms credentials [] result = (Inr result, [])"
| "credentials_loop sv kms credentials ((key, env_var) # rest) result =
     (case credentials key of
        Some value \<Rightarrow>
          if kms then
            (case decrypt_with_kms sv value of
               (Inl e, tr) \<Rightarrow> (Inl e, tr)
             | (Inr plaintext, tr) \<Rightarrow>
                 apsnd (\<lambda>tr'. tr @ tr')
                   (credentials_loop sv kms credentials rest (result(key \<mapsto> plaintext))))
          else credentials_loop sv kms credentials rest (result(key \<mapsto> value))
      | None \<Rightarrow>
          (case environ sv env_var of
             Some v \<Rightarrow>
               apsnd (\<lambda>tr'. Log INFO (UsingEnvironmentVariable key) # tr')
                 (credentials_loop sv kms credentials rest (result(key \<mapsto> v)))
           | None \<Rightarrow> (Inl (ValueError (''Missing credential: '' @ key)), [])))"

text \<open>
  \<^verbatim>\<open>_load_credentials\<close>: only \<^verbatim>\<open>FileNotFoundError\<close> is caught (logged and raised
  again) around the read of the file.
\<close>

definition load_credentials :: "services \<Rightarrow> config
    \<Rightarrow> (exn + (string \<rightharpoonup> string)) \<times> event list" where
  "load_credentials sv cfg =
     (case read_credentials sv (credentials_file cfg) of
        Inl (FileNotFoundError m) \<Rightarrow>
          (Inl (FileNotFoundError m),
           [Log ERROR (CredentialsFileNotFound (credentials_file cfg))])
      | Inl e \<Rightarrow> (Inl e, [])
      | Inr credentials \<Rightarrow>
          credentials_loop sv (use_kms cfg) credentials cred_mapping Map.empty)"

text \<open>
  The expression \<^verbatim>\<open>Twython(creds['consumer_key'], ...)\<close>: the four subscripts, left to
  right, then the constructor. The result is the exception raised, if any. The text of
  the \<^verbatim>\<open>KeyError\<close> of a subscript is the literal key between single quotes.
\<close>

definition make_client :: "services \<Rightarrow> (string \<rightharpoonup> string) \<Rightarrow> exn option" where
  "make_client sv creds =
     (case creds ''consumer_key'' of
        None \<Rightarrow> Some (KeyError ([CHR 0x27] @ ''consumer_key'' @ [CHR 0x27]))
      | Some ck \<Rightarrow>
     (case creds ''consumer_secret'' of
        None \<Rightarrow> Some (KeyError ([CHR 0x27] @ ''consumer_secret'' @ [CHR 0x27]))
      | Some cs \<Rightarrow>
     (case creds ''access_token_key'' of
        None \<Rightarrow> Some (KeyError ([CHR 0x27] @ ''access_token_key'' @ [CHR 0x27]))
      | Some atk \<Rightarrow>
     (case creds ''access_token_secret'' of
        None \<Rightarrow> Some (KeyError ([CHR 0x27] @ ''access_token_secret'' @ [CHR 0x27]))
      | Some ats \<Rightarrow> twython sv ck cs atk ats))))"

definition setup_twitter_client :: "services \<Rightarrow> config \<Rightarrow> (exn + unit) \<times> event list" where
  "setup_twitter_client sv cfg =
     (case load_credentials sv cfg of
        (Inl e, tr) \<Rightarrow> (Inl e, tr @ [Log ERROR (ClientSetupFailed e)])
      | (Inr creds, tr) \<Rightarrow>
          (case make_client sv creds of
             Some e \<Rightarrow> (Inl e, tr @ [Log ERROR (ClientSetupFailed e)])
           | None \<Rightarrow> (Inr (), tr @ [Log INFO ClientInitialized])))"

text \<open>
  \<^verbatim>\<open>TwitterBot.__init__\<close>. A bot that was built is given by its configuration: its
  client is the \<open>update_status\<close> of the services.
\<close>

definition TwitterBot :: "services \<Rightarrow> string \<Rightarrow> (exn + config) \<times> event list" where
  "TwitterBot sv config_path =
     (case load_config sv config_path of
        Inl e \<Rightarrow> (Inl e, [])
      | Inr cfg \<Rightarrow>
          (case setup_twitter_client sv cfg of
             (Inl e, tr) \<Rightarrow> (Inl e, tr)
           | (Inr u, tr) \<Rightarrow> (Inr cfg, tr)))"

subsection \<open>Posting\<close>

definition send_tweet :: "services \<Rightarrow> config \<Rightarrow> pystr \<Rightarrow> (exn + bool) \<times> event list" where
  "send_tweet sv cfg tweet_text =
     (if tweet_text = [] \<or> length tweet_text > 280
      then (Inl (ValueError ''Tweet text must be 1-280 characters''), [])
      else
        (case retry_with_backoff sv cfg (update_status sv tweet_text) of
           (Inr r, tr) \<Rightarrow> (Inr True, tr @ [Log INFO (TweetSent (take 50 tweet_text))])
         | (Inl e, tr) \<Rightarrow> (Inr False, tr @ [Log ERROR (SendFailed e)])))"

text \<open>
  \<^verbatim>\<open>random.choice\<close> of a non-empty list returns one of its elements: the draw
  \<open>random_choice\<close> is reduced to an index of the list.
\<close>

definition send_random_tweet :: "services \<Rightarrow> config \<Rightarrow> (exn + bool) \<times> event list" where
  "send_random_tweet sv cfg =
     (if tweets cfg = [] then (Inr False, [Log ERROR NoTweetsConfigured])
      else send_tweet sv cfg (tweets cfg ! (random_choice sv mod length (tweets cfg))))"

subsection \<open>The entry point\<close>

text \<open>
  The dictionary the handler returns; \<open>body\<close> is the dictionary handed to
  \<^verbatim>\<open>json.dumps\<close>, as the list of its items.
\<close>

datatype json = JBool bool | JStr string

record response =
  statusCode :: int
  body :: "(string \<times> json) list"

text \<open>The \<^verbatim>\<open>try\<close> block of \<^verbatim>\<open>handler\<close>.\<close>

definition handler_try :: "services \<Rightarrow> (exn + response) \<times> event list" where
  "handler_try sv =
     (case TwitterBot sv ''config.json'' of
        (Inl e, tr) \<Rightarrow> (Inl e, tr)
      | (Inr cfg, tr) \<Rightarrow>
          (case send_random_tweet sv cfg of
             (Inl e, tr') \<Rightarrow> (Inl e, tr @ tr')
           | (Inr success, tr') \<Rightarrow>
               (Inr \<lparr>statusCode = (if success then 200 else 500),
                     body = [(''success'', JBool success),
                             (''message'', JStr (if success then ''Tweet sent successfully''
                                                else ''Failed to send tweet''))]\<rparr>,
                tr @ tr')))"

text \<open>\<^verbatim>\<open>handler(event, context)\<close>: the \<^verbatim>\<open>try\<close> block and its \<^verbatim>\<open>except Exception\<close>.\<close>

definition handler :: "services \<Rightarrow> 'e \<Rightarrow> 'c \<Rightarrow> (exn + response) \<times> event list" where
  "handler sv event ctx =
     (case handler_try sv of
        (Inr r, tr) \<Rightarrow> (Inr r, tr)
      | (Inl e, tr) \<Rightarrow>
          (Inr \<lparr>statusCode = 500,
                body = [(''success'', JBool False), (''error'', JStr (str_exn e))]\<rparr>,
           tr @ [Log ERROR (HandlerError e)]))"

section \<open>Properties\<close>

subsection \<open>Descriptions of runs and example inputs\<close>

text \<open>
  The effects of one failed attempt that is followed by another one: the call, the
  warning and the sleep. \<open>err i\<close> is the exception of attempt \<open>i\<close>.
\<close>

definition failed_round :: "config \<Rightarrow> (nat \<Rightarrow> exn) \<Rightarrow> nat \<Rightarrow> event list" where
  "failed_round cfg err i =
     [Invoke, Log WARNING (AttemptFailed (i + 1) (err i) (delay cfg i)), Sleep (delay cfg i)]"

text \<open>
  Services in which nothing fails, retry policies, and two operations: one that fails
  at every attempt, each time with another exception, and one that succeeds at its
  \<open>k\<close>-th invocation and fails before.
\<close>

definition plain_services :: services where
  "plain_services =
     \<lparr>read_config = (\<lambda>p. Inl (FileNotFoundError p)),
      read_credentials = (\<lambda>p. Inl (FileNotFoundError p)),
      environ = Map.empty,
      kms_client = None,
      kms_decrypt = (\<lambda>c. Inr c),
      twython = (\<lambda>ck cs atk ats. None),
      update_status = (\<lambda>t i. Inr ''posted''),
      random_choice = 0,
      sleep_range = (\<lambda>d. None)\<rparr>"

definition policy :: "int \<Rightarrow> int \<Rightarrow> int \<Rightarrow> config" where
  "policy n b d =
     \<lparr>logging_level = INFO, logging_format = ''json'',
      credentials_file = ''credentials.json'', use_kms = False,
      max_attempts = n, backoff_factor = b, max_delay = d,
      tweets = []\<rparr>"

definition failure :: "nat \<Rightarrow> exn" where
  "failure i = OtherException (''failure '' @ replicate i (CHR ''I''))"

definition always_failing :: "nat \<Rightarrow> exn + string" where
  "always_failing i = Inl (failure i)"

definition succeeds_at :: "nat \<Rightarrow> nat \<Rightarrow> exn + string" where
  "succeeds_at k i = (if i + 1 = k then Inr ''posted'' else Inl (failure i))"

text \<open>
  The same services with a client that succeeds at its \<open>k\<close>-th attempt, and with a
  client that never succeeds.
\<close>

definition flaky_services :: "nat \<Rightarrow> services" where
  "flaky_services k = plain_services\<lparr>update_status := (\<lambda>t. succeeds_at k)\<rparr>"

definition down_services :: services where
  "down_services = plain_services\<lparr>update_status := (\<lambda>t. always_failing)\<rparr>"

text \<open>
  A credentials file that holds three of the four fields, environments that set the
  fourth variable or all four, a key-management service that answers a plaintext other
  than the ciphertext, one that refuses every request, and
  services in which every step of the handler goes through.
\<close>

definition three_of_four :: "string \<rightharpoonup> string" where
  "three_of_four =
     [''consumer_key'' \<mapsto> ''ck-file'', ''consumer_secret'' \<mapsto> ''cs-file'',
      ''access_token_key'' \<mapsto> ''atk-file'']"

definition file_services :: "(string \<rightharpoonup> string) \<Rightarrow> services" where
  "file_services env =
     plain_services\<lparr>read_credentials := (\<lambda>p. Inr three_of_four), environ := env\<rparr>"

definition secret_environ :: "string \<rightharpoonup> string" where
  "secret_environ = [''TWITTER_ACCESS_TOKEN_SECRET'' \<mapsto> ''ats-env'']"

definition all_set_environ :: "string \<rightharpoonup> string" where
  "all_set_environ =
     [''TWITTER_CONSUMER_KEY'' \<mapsto> ''ck'', ''TWITTER_CONSUMER_SECRET'' \<mapsto> ''cs'',
      ''TWITTER_ACCESS_TOKEN'' \<mapsto> ''atk'', ''TWITTER_ACCESS_TOKEN_SECRET'' \<mapsto> ''ats'']"

definition kms_services :: services where
  "kms_services =
     (file_services secret_environ)\<lparr>kms_decrypt := (\<lambda>c. Inr (''plain-'' @ c))\<rparr>"

definition kms_down_services :: services where
  "kms_down_services =
     (file_services all_set_environ)\<lparr>kms_decrypt := (\<lambda>c. Inl (OtherException ''AccessDenied''))\<rparr>"

definition demo_config :: config where
  "demo_config = (policy 3 2 10)\<lparr>tweets := [[104, 105]]\<rparr>"

definition working_services :: services where
  "working_services =
     (file_services secret_environ)
       \<lparr>read_config := (\<lambda>p. Inr demo_config), update_status := (\<lambda>t. succeeds_at 3)\<rparr>"

text \<open>
  The resolution of one credential field as the specification words it: the value of
  the file when the field is present in the file, decrypted by the key-management
  service when decryption is enabled (the plaintext the service answers for that
  value, or the failure of the service or of its client); otherwise the value of the
  environment variable when it is set; otherwise the missing-credential error that
  names the field.
\<close>

definition resolve_field_spec :: "services \<Rightarrow> bool \<Rightarrow> (string \<rightharpoonup> string) \<Rightarrow> string \<Rightarrow> string
    \<Rightarrow> exn + string" where
  "resolve_field_spec sv kms credentials key env_var =
     (case credentials key of
        Some value \<Rightarrow>
          if kms then
            (case kms_client sv of
               Some e \<Rightarrow> Inl e
             | None \<Rightarrow> kms_decrypt sv value)
          else Inr value
      | None \<Rightarrow>
          (case environ sv env_var of
             Some v \<Rightarrow> Inr v
           | None \<Rightarrow> Inl (ValueError (''Missing credential: '' @ key))))"


lemmas run_simps = retry_with_backoff_def plain_services_def policy_def failure_def
  always_failing_def succeeds_at_def time_sleep_def delay_def invocations_def upt_conv_Cons

lemmas credential_simps = file_services_def plain_services_def policy_def three_of_four_def
  secret_environ_def all_set_environ_def resolve_field_spec_def cred_mapping_def
  load_credentials_def decrypt_with_kms_def

lemmas handler_simps = handler_def handler_try_def TwitterBot_def load_config_def
  setup_twitter_client_def make_client_def send_random_tweet_def send_tweet_def
  working_services_def demo_config_def

subsection \<open>The retrying executor\<close>

lemma invocations_simps:
  "invocations [] = 0"
  "invocations (Invoke # tr) = Suc (invocations tr)"
  "invocations (Sleep d # tr) = invocations tr"
  "invocations (Log l m # tr) = invocations tr"
  "invocations (tr @ tr') = invocations tr + invocations tr'"
  by (induction tr) (simp_all add: invocations_def)

lemma delays_append: "delays (tr @ tr') = delays tr @ delays tr'"
  by (induction tr rule: delays.induct) simp_all

lemma invocations_rounds:
  "invocations (concat (map (failed_round cfg err) is)) = length is"
  by (induction "is") (simp_all add: invocations_simps failed_round_def)

lemma delays_rounds:
  "delays (concat (map (failed_round cfg err) is)) = map (delay cfg) is"
  by (induction "is") (simp_all add: delays_append failed_round_def)

lemma attempts_success_at:
  assumes "func (a + k) = Inr r"
    and "\<And>i. a \<le> i \<Longrightarrow> i < a + k \<Longrightarrow> func i = Inl (err i)"
    and "\<And>i. a \<le> i \<Longrightarrow> i < a + k \<Longrightarrow> time_sleep sv (delay cfg i) = None"
    and "int (a + k) < max_attempts cfg"
  shows "attempts sv cfg func [a ..< nat (max_attempts cfg)] =
           (Inr (Some r), concat (map (failed_round cfg err) [a ..< a + k]) @ [Invoke])"
  using assms
proof (induction k arbitrary: a)
  case 0
  then have "[a ..< nat (max_attempts cfg)] = a # [Suc a ..< nat (max_attempts cfg)]"
    by (simp add: upt_conv_Cons)
  with 0 show ?case by simp
next
  case (Suc k)
  have lt: "a < nat (max_attempts cfg)" using Suc.prems(4) by simp
  have split: "[a ..< nat (max_attempts cfg)] = a # [Suc a ..< nat (max_attempts cfg)]"
    using lt by (simp add: upt_conv_Cons)
  have fa: "func a = Inl (err a)" using Suc.prems(2)[of a] by simp
  have sa: "time_sleep sv (delay cfg a) = None" using Suc.prems(3)[of a] by simp
  have notlast: "int a \<noteq> max_attempts cfg - 1" using Suc.prems(4) by simp
  have IH: "attempts sv cfg func [Suc a ..< nat (max_attempts cfg)] =
           (Inr (Some r), concat (map (failed_round cfg err) [Suc a ..< Suc a + k]) @ [Invoke])"
    using Suc.prems by (intro Suc.IH) simp_all
  have "[a ..< a + Suc k] = a # [Suc a ..< Suc a + k]"
    using upt_conv_Cons [of a "a + Suc k"] by (simp del: upt_Suc)
  then have rounds: "concat (map (failed_round cfg err) [a ..< a + Suc k]) =
      failed_round cfg err a @ concat (map (failed_round cfg err) [Suc a ..< Suc a + k])"
    by (simp del: upt_Suc)
  show ?case
    unfolding split rounds by (simp add: fa sa notlast IH) (simp add: failed_round_def)
qed

lemma attempts_all_fail:
  assumes "\<And>i. a \<le> i \<Longrightarrow> i \<le> a + k \<Longrightarrow> func i = Inl (err i)"
    and "\<And>i. a \<le> i \<Longrightarrow> i < a + k \<Longrightarrow> time_sleep sv (delay cfg i) = None"
    and "int (a + k) = max_attempts cfg - 1"
  shows "attempts sv cfg func [a ..< nat (max_attempts cfg)] =
           (Inl (err (a + k)),
            concat (map (failed_round cfg err) [a ..< a + k])
              @ [Invoke, Log ERROR (OperationFailedAfter (max_attempts cfg) (err (a + k)))])"
  using assms
proof (induction k arbitrary: a)
  case 0
  then have "[a ..< nat (max_attempts cfg)] = [a]"
    by (simp add: upt_conv_Cons)
  with 0 show ?case by simp
next
  case (Suc k)
  have lt: "a < nat (max_attempts cfg)" using Suc.prems(3) by simp
  have split: "[a ..< nat (max_attempts cfg)] = a # [Suc a ..< nat (max_attempts cfg)]"
    using lt by (simp add: upt_conv_Cons)
  have fa: "func a = Inl (err a)" using Suc.prems(1)[of a] by simp
  have sa: "time_sleep sv (delay cfg a) = None" using Suc.prems(2)[of a] by simp
  have notlast: "int a \<noteq> max_attempts cfg - 1" using Suc.prems(3) by simp
  have IH: "attempts sv cfg func [Suc a ..< nat (max_attempts cfg)] =
           (Inl (err (Suc a + k)),
            concat (map (failed_round cfg err) [Suc a ..< Suc a + k])
              @ [Invoke, Log ERROR (OperationFailedAfter (max_attempts cfg) (err (Suc a + k)))])"
    using Suc.prems by (intro Suc.IH) simp_all
  have "[a ..< a + Suc k] = a # [Suc a ..< Suc a + k]"
    using upt_conv_Cons [of a "a + Suc k"] by (simp del: upt_Suc)
  then have rounds: "concat (map (failed_round cfg err) [a ..< a + Suc k]) =
      failed_round cfg err a @ concat (map (failed_round cfg err) [Suc a ..< Suc a + k])"
    by (simp del: upt_Suc)
  show ?case
    unfolding split rounds by (simp add: fa sa notlast IH) (simp add: failed_round_def)
qed

lemma delays_attempts_take:
  "\<exists>m. delays (snd (attempts sv cfg func as)) = map (delay cfg) (take m as)"
proof (induction as)
  case Nil
  then show ?case by simp
next
  case (Cons a as)
  then obtain m where m: "delays (snd (attempts sv cfg func as)) = map (delay cfg) (take m as)"
    by blast
  show ?case
  proof (cases "func a")
    case (Inr r)
    then have "delays (snd (attempts sv cfg func (a # as))) = map (delay cfg) (take 0 (a # as))"
      by simp
    then show ?thesis by blast
  next
    case (Inl e)
    show ?thesis
    proof (cases "int a = max_attempts cfg - 1 \<or> time_sleep sv (delay cfg a) \<noteq> None")
      case True
      with Inl have "delays (snd (attempts sv cfg func (a # as))) = map (delay cfg) (take 0 (a # as))"
        by auto
      then show ?thesis by blast
    next
      case False
      with Inl m have "delays (snd (attempts sv cfg func (a # as))) = map (delay cfg) (take (Suc m) (a # as))"
        by auto
      then show ?thesis by blast
    qed
  qed
qed

lemma time_sleep_accepts: "time_sleep sv d = None \<Longrightarrow> 0 \<le> d"
  by (simp add: time_sleep_def split: if_splits)

lemma delays_attempts_nonneg:
  "d \<in> set (delays (snd (attempts sv cfg func as))) \<Longrightarrow> 0 \<le> d"
  by (induction as) (auto split: sum.splits if_splits option.splits dest: time_sleep_accepts)

lemma delay_nonneg:
  "0 \<le> backoff_factor cfg \<Longrightarrow> 0 \<le> max_delay cfg \<Longrightarrow> 0 \<le> delay cfg i"
  by (simp add: delay_def)

lemma plain_sleep_accepts:
  "0 \<le> b \<Longrightarrow> 0 \<le> d \<Longrightarrow> time_sleep plain_services (delay (policy n b d) i) = None"
  using delay_nonneg [of "policy n b d" i]
  by (simp add: time_sleep_def plain_services_def policy_def)

text \<open>
  Claim C1, amended. For every retry policy with \<open>max_attempts = N \<ge> 1\<close> and every
  operation that fails at each of its invocations, provided \<^verbatim>\<open>time.sleep\<close> accepts each
  of the \<open>N - 1\<close> delays computed between the attempts: the operation is invoked exactly
  \<open>N\<close> times, the exception of the \<open>N\<close>-th invocation is the one that leaves the
  executor, the delays are those of the indices \<open>0, ..., N - 2\<close>, and for \<open>N = 1\<close> the
  run is one invocation and the error record, with no sleep.
\<close>

theorem always_failing_operation:
  assumes "1 \<le> max_attempts cfg"
    and "\<And>i. int i < max_attempts cfg \<Longrightarrow> func i = Inl (err i)"
    and "\<And>i. int i < max_attempts cfg - 1 \<Longrightarrow> time_sleep sv (delay cfg i) = None"
  shows "snd (retry_with_backoff sv cfg func) =
           concat (map (failed_round cfg err) [0 ..< nat (max_attempts cfg) - 1])
             @ [Invoke, Log ERROR (OperationFailedAfter (max_attempts cfg)
                                     (err (nat (max_attempts cfg) - 1)))]
       \<and> fst (retry_with_backoff sv cfg func) = Inl (err (nat (max_attempts cfg) - 1))
       \<and> invocations (snd (retry_with_backoff sv cfg func)) = nat (max_attempts cfg)
       \<and> delays (snd (retry_with_backoff sv cfg func)) =
           map (delay cfg) [0 ..< nat (max_attempts cfg) - 1]
       \<and> (max_attempts cfg = 1 \<longrightarrow>
            snd (retry_with_backoff sv cfg func) =
              [Invoke, Log ERROR (OperationFailedAfter 1 (err 0))])"
proof -
  define k where "k = nat (max_attempts cfg) - 1"
  have k: "int (0 + k) = max_attempts cfg - 1"
    using assms(1) by (simp add: k_def)
  have run: "retry_with_backoff sv cfg func =
      (Inl (err k), concat (map (failed_round cfg err) [0 ..< k])
         @ [Invoke, Log ERROR (OperationFailedAfter (max_attempts cfg) (err k))])"
    unfolding retry_with_backoff_def
    using attempts_all_fail [of 0 k func err sv cfg] assms(2,3) k by simp
  have one: "max_attempts cfg = 1 \<Longrightarrow> k = 0"
    by (simp add: k_def)
  show ?thesis
    unfolding run k_def [symmetric]
    using assms(1) one
    by (auto simp: invocations_simps invocations_rounds delays_append delays_rounds k_def)
qed

theorem always_failing_operation_witness:
  "fst (retry_with_backoff plain_services (policy 2 5 3) always_failing)
     = Inl (OtherException ''failure I'')
   \<and> invocations (snd (retry_with_backoff plain_services (policy 2 5 3) always_failing)) = 2
   \<and> delays (snd (retry_with_backoff plain_services (policy 2 5 3) always_failing)) = [1]"
proof -
  have 1: "1 \<le> max_attempts (policy 2 5 3)"
    by (simp add: policy_def)
  have 2: "\<And>i. int i < max_attempts (policy 2 5 3) \<Longrightarrow> always_failing i = Inl (failure i)"
    by (simp add: always_failing_def)
  have 3: "\<And>i. int i < max_attempts (policy 2 5 3) - 1
      \<Longrightarrow> time_sleep plain_services (delay (policy 2 5 3) i) = None"
    by (simp add: plain_sleep_accepts)
  show ?thesis
    using always_failing_operation [where cfg = "policy 2 5 3" and func = always_failing
        and err = failure and sv = plain_services, OF 1 2 3]
    by (simp add: run_simps)
qed

text \<open>
  The claim as it was stated fails where a computed delay is negative: under the policy
  \<open>max_attempts = 2\<close>, \<open>backoff_factor = 2\<close>, \<open>max_delay = -1\<close> the first delay is
  \<open>min (2 ^ 0) (-1) = -1\<close>, \<^verbatim>\<open>time.sleep\<close> raises inside the \<^verbatim>\<open>except\<close> block, and
  the operation was invoked once.
\<close>

theorem always_failing_operation_counterexample:
  "max_attempts (policy 2 2 (- 1)) = 2
   \<and> always_failing 0 = Inl (OtherException ''failure '')
   \<and> always_failing 1 = Inl (OtherException ''failure I'')
   \<and> invocations (snd (retry_with_backoff plain_services (policy 2 2 (- 1)) always_failing)) = 1
   \<and> fst (retry_with_backoff plain_services (policy 2 2 (- 1)) always_failing)
       = Inl (ValueError ''sleep length must be non-negative'')"
  by (simp add: run_simps)

lemma invocations_attempts:
  assumes "as \<noteq> [] \<Longrightarrow> int (last as) = max_attempts cfg - 1"
  shows "invocations (snd (attempts sv cfg func as)) =
           (if as = [] then 0 else Suc (length (delays (snd (attempts sv cfg func as)))))"
  using assms
proof (induction as)
  case Nil
  show ?case by (simp add: invocations_simps)
next
  case (Cons a as)
  show ?case
  proof (cases "as = []")
    case True
    with Cons.prems have "int a = max_attempts cfg - 1" by simp
    with True show ?thesis
      by (simp add: invocations_simps split: sum.splits)
  next
    case False
    with Cons.prems have "int (last as) = max_attempts cfg - 1" by simp
    with Cons.IH False
    have IH: "invocations (snd (attempts sv cfg func as))
        = Suc (length (delays (snd (attempts sv cfg func as))))"
      by simp
    show ?thesis
      by (simp add: invocations_simps IH split: sum.splits option.splits)
  qed
qed

lemma invocations_retry:
  "invocations (snd (retry_with_backoff sv cfg func)) =
     (if max_attempts cfg \<le> 0 then 0
      else Suc (length (delays (snd (retry_with_backoff sv cfg func)))))"
proof -
  have "int (last [0 ..< nat (max_attempts cfg)]) = max_attempts cfg - 1"
    if "[0 ..< nat (max_attempts cfg)] \<noteq> []"
    using that by (simp add: last_upt)
  from invocations_attempts [of "[0 ..< nat (max_attempts cfg)]" cfg sv func, OF this]
  show ?thesis
    by (simp add: retry_with_backoff_def)
qed

text \<open>
  Claim C2. In every run of the executor, an attempt of index \<open>i\<close> is followed by
  another attempt (the operation is invoked more than \<open>i + 1\<close> times) exactly when an
  \<open>i\<close>-th delay was slept; that delay, the one incurred between the failed attempt of
  index \<open>i\<close> and the next attempt, is \<open>min (backoff_factor ^ i) max_delay\<close>, is not
  negative and does not exceed \<open>max_delay\<close>.
\<close>

theorem incurred_delay:
  "((Suc i < invocations (snd (retry_with_backoff sv cfg func)))
      = (i < length (delays (snd (retry_with_backoff sv cfg func)))))
   \<and> (Suc i < invocations (snd (retry_with_backoff sv cfg func)) \<longrightarrow>
        delays (snd (retry_with_backoff sv cfg func)) ! i
           = min (backoff_factor cfg ^ i) (max_delay cfg)
        \<and> 0 \<le> delays (snd (retry_with_backoff sv cfg func)) ! i
        \<and> delays (snd (retry_with_backoff sv cfg func)) ! i \<le> max_delay cfg)"
proof -
  let ?tr = "snd (retry_with_backoff sv cfg func)"
  let ?ds = "delays ?tr"
  have none: "?tr = []" if "max_attempts cfg \<le> 0"
    using that by (simp add: retry_with_backoff_def)
  have iff: "(Suc i < invocations ?tr) = (i < length ?ds)"
  proof (cases "max_attempts cfg \<le> 0")
    case True
    then show ?thesis by (simp add: none invocations_simps)
  next
    case False
    then show ?thesis by (simp add: invocations_retry)
  qed
  have val: "?ds ! i = min (backoff_factor cfg ^ i) (max_delay cfg)
      \<and> 0 \<le> ?ds ! i \<and> ?ds ! i \<le> max_delay cfg"
    if less: "i < length ?ds"
  proof -
    obtain m where m: "?ds = map (delay cfg) (take m [0 ..< nat (max_attempts cfg)])"
      unfolding retry_with_backoff_def using delays_attempts_take by blast
    have len: "i < length (take m [0 ..< nat (max_attempts cfg)])"
      using less m by simp
    then have "take m [0 ..< nat (max_attempts cfg)] ! i = i"
      by simp
    with len m have eq: "?ds ! i = delay cfg i"
      by simp
    have "?ds ! i \<in> set ?ds" using less by simp
    then have "0 \<le> ?ds ! i"
      unfolding retry_with_backoff_def by (rule delays_attempts_nonneg)
    with eq show ?thesis by (simp add: delay_def)
  qed
  show ?thesis
  proof (rule conjI [OF iff], rule impI)
    assume "Suc i < invocations ?tr"
    with iff have "i < length ?ds" by simp
    then show "?ds ! i = min (backoff_factor cfg ^ i) (max_delay cfg)
      \<and> 0 \<le> ?ds ! i \<and> ?ds ! i \<le> max_delay cfg"
      by (rule val)
  qed
qed

theorem incurred_delay_witness:
  "invocations (snd (retry_with_backoff plain_services (policy 5 2 10) always_failing)) = 5
   \<and> length (delays (snd (retry_with_backoff plain_services (policy 5 2 10) always_failing))) = 4
   \<and> delays (snd (retry_with_backoff plain_services (policy 5 2 10) always_failing)) ! 3 = 8
   \<and> min (backoff_factor (policy 5 2 10) ^ 3) (max_delay (policy 5 2 10)) = 8"
proof -
  have inv: "invocations (snd (retry_with_backoff plain_services (policy 5 2 10) always_failing))
      = 5"
    by (simp add: run_simps)
  then have "Suc 3 < invocations (snd (retry_with_backoff plain_services (policy 5 2 10)
      always_failing))"
    by simp
  from mp [OF conjunct2 [OF incurred_delay [of 3 plain_services "policy 5 2 10" always_failing]]
      this]
    conjunct1 [OF incurred_delay [of 3 plain_services "policy 5 2 10" always_failing]]
    inv
  have "delays (snd (retry_with_backoff plain_services (policy 5 2 10) always_failing)) ! 3 = 8"
    and "3 < length (delays (snd (retry_with_backoff plain_services (policy 5 2 10)
      always_failing)))"
    by (simp_all add: policy_def)
  moreover have "length (delays (snd (retry_with_backoff plain_services (policy 5 2 10)
      always_failing))) = 4"
    using invocations_retry [of plain_services "policy 5 2 10" always_failing] inv
    by (simp add: policy_def)
  ultimately show ?thesis using inv by (simp add: policy_def)
qed

text \<open>
  Claim C3, amended. For every retry policy with \<open>max_attempts = N \<ge> 1\<close> and every
  operation that fails at its first \<open>k - 1\<close> invocations and succeeds at the \<open>k\<close>-th
  (\<open>1 \<le> k \<le> N\<close>), provided \<^verbatim>\<open>time.sleep\<close> accepts each of the \<open>k - 1\<close> delays computed
  before the success: the operation is invoked exactly \<open>k\<close> times, exactly \<open>k - 1\<close>
  delays are slept, the result of the operation is returned, and the successful
  invocation is the last effect of the run.
\<close>

theorem success_at_attempt:
  assumes "1 \<le> k" and "int k \<le> max_attempts cfg"
    and "\<And>i. i < k - 1 \<Longrightarrow> func i = Inl (err i)"
    and "func (k - 1) = Inr r"
    and "\<And>i. i < k - 1 \<Longrightarrow> time_sleep sv (delay cfg i) = None"
  shows "snd (retry_with_backoff sv cfg func) =
           concat (map (failed_round cfg err) [0 ..< k - 1]) @ [Invoke]
       \<and> fst (retry_with_backoff sv cfg func) = Inr (Some r)
       \<and> invocations (snd (retry_with_backoff sv cfg func)) = k
       \<and> length (delays (snd (retry_with_backoff sv cfg func))) = k - 1
       \<and> delays (snd (retry_with_backoff sv cfg func)) = map (delay cfg) [0 ..< k - 1]
       \<and> last (snd (retry_with_backoff sv cfg func)) = Invoke"
proof -
  have run: "retry_with_backoff sv cfg func =
      (Inr (Some r), concat (map (failed_round cfg err) [0 ..< k - 1]) @ [Invoke])"
    unfolding retry_with_backoff_def
    using attempts_success_at [of func 0 "k - 1" r err sv cfg] assms by simp
  show ?thesis
    unfolding run using assms(1)
    by (simp add: invocations_simps invocations_rounds delays_append delays_rounds)
qed

theorem success_at_attempt_witness:
  "fst (retry_with_backoff plain_services (policy 3 2 10) (succeeds_at 3)) = Inr (Some ''posted'')
   \<and> invocations (snd (retry_with_backoff plain_services (policy 3 2 10) (succeeds_at 3))) = 3
   \<and> delays (snd (retry_with_backoff plain_services (policy 3 2 10) (succeeds_at 3))) = [1, 2]
   \<and> sum_list (delays (snd (retry_with_backoff plain_services (policy 3 2 10) (succeeds_at 3))))
       = 3"
proof -
  have 1: "1 \<le> (3::nat)" by simp
  have 2: "int 3 \<le> max_attempts (policy 3 2 10)"
    by (simp add: policy_def)
  have 3: "\<And>i. i < 3 - 1 \<Longrightarrow> succeeds_at 3 i = Inl (failure i)"
    by (simp add: succeeds_at_def)
  have 4: "succeeds_at 3 (3 - 1) = Inr ''posted''"
    by (simp add: succeeds_at_def)
  have 5: "\<And>i. i < 3 - 1 \<Longrightarrow> time_sleep plain_services (delay (policy 3 2 10) i) = None"
    by (simp add: plain_sleep_accepts)
  show ?thesis
    using success_at_attempt [where k = 3 and cfg = "policy 3 2 10" and func = "succeeds_at 3"
        and err = failure and r = "''posted''" and sv = plain_services, OF 1 2 3 4 5]
    by (simp add: run_simps)
qed

text \<open>
  The claim as it was stated fails under the policy \<open>max_attempts = 2\<close>,
  \<open>backoff_factor = 2\<close>, \<open>max_delay = -1\<close> for an operation that fails once and would
  succeed at its second invocation: the sleep raises, the operation was invoked once
  and the executor raises instead of returning.
\<close>

theorem success_at_attempt_counterexample:
  "max_attempts (policy 2 2 (- 1)) = 2
   \<and> succeeds_at 2 0 = Inl (OtherException ''failure '')
   \<and> succeeds_at 2 1 = Inr ''posted''
   \<and> invocations (snd (retry_with_backoff plain_services (policy 2 2 (- 1)) (succeeds_at 2))) = 1
   \<and> fst (retry_with_backoff plain_services (policy 2 2 (- 1)) (succeeds_at 2))
       = Inl (ValueError ''sleep length must be non-negative'')"
  by (simp add: run_simps)

subsection \<open>Credential resolution\<close>

lemma decrypt_with_kms_result:
  "fst (decrypt_with_kms sv ciphertext) =
     (case kms_client sv of Some e \<Rightarrow> Inl e | None \<Rightarrow> kms_decrypt sv ciphertext)"
  by (simp add: decrypt_with_kms_def split: option.splits sum.splits)

lemma credentials_loop_step:
  "fst (credentials_loop sv kms credentials ((key, env_var) # rest) result) =
     (case resolve_field_spec sv kms credentials key env_var of
        Inl e \<Rightarrow> Inl e
      | Inr v \<Rightarrow> fst (credentials_loop sv kms credentials rest (result(key \<mapsto> v))))"
  by (auto simp: resolve_field_spec_def decrypt_with_kms_def
      split: option.splits prod.splits sum.splits)

lemma credentials_loop_fails_at:
  assumes "\<forall>x\<in>set pre. \<exists>v. resolve_field_spec sv kms credentials (fst x) (snd x) = Inr v"
    and "resolve_field_spec sv kms credentials key env_var = Inl e"
  shows "fst (credentials_loop sv kms credentials (pre @ (key, env_var) # post) result) = Inl e"
  using assms(1)
proof (induction pre arbitrary: result)
  case Nil
  show ?case using assms(2) by (simp only: append_Nil credentials_loop_step sum.case)
next
  case (Cons x pre)
  obtain k ev where x: "x = (k, ev)" by (cases x)
  from Cons.prems obtain v where v: "resolve_field_spec sv kms credentials k ev = Inr v"
    by (auto simp: x)
  have step: "fst (credentials_loop sv kms credentials ((x # pre) @ (key, env_var) # post) result)
      = fst (credentials_loop sv kms credentials (pre @ (key, env_var) # post) (result(k \<mapsto> v)))"
    unfolding x append_Cons by (simp only: credentials_loop_step v sum.case)
  have "fst (credentials_loop sv kms credentials (pre @ (key, env_var) # post) (result(k \<mapsto> v)))
      = Inl e"
    using Cons.prems by (intro Cons.IH) simp
  then show ?case
    by (simp only: step)
qed

lemma credentials_loop_fails:
  assumes "(key, env_var) \<in> set entries"
    and "resolve_field_spec sv kms credentials key env_var = Inl e"
  shows "\<exists>e'. fst (credentials_loop sv kms credentials entries result) = Inl e'"
  using assms(1)
proof (induction entries arbitrary: result)
  case Nil
  then show ?case by simp
next
  case (Cons x entries)
  obtain k ev where x: "x = (k, ev)" by (cases x)
  show ?case
  proof (cases "resolve_field_spec sv kms credentials k ev")
    case (Inl e')
    then show ?thesis
      unfolding x by (simp only: credentials_loop_step sum.case) blast
  next
    case (Inr v)
    have step: "fst (credentials_loop sv kms credentials (x # entries) result)
        = fst (credentials_loop sv kms credentials entries (result(k \<mapsto> v)))"
      unfolding x by (simp only: credentials_loop_step Inr sum.case)
    from Inr assms(2) Cons.prems have "(key, env_var) \<in> set entries"
      by (auto simp: x)
    from Cons.IH [OF this, of "result(k \<mapsto> v)"] show ?thesis
      by (simp only: step)
  qed
qed

lemma credentials_loop_succeeds:
  assumes "\<forall>x\<in>set entries. \<exists>v. resolve_field_spec sv kms credentials (fst x) (snd x) = Inr v"
    and "distinct (map fst entries)"
  shows "\<exists>res. fst (credentials_loop sv kms credentials entries result) = Inr res
      \<and> dom res = dom result \<union> fst ` set entries
      \<and> (\<forall>x\<in>set entries. resolve_field_spec sv kms credentials (fst x) (snd x)
            = Inr (the (res (fst x))))
      \<and> (\<forall>k. k \<notin> fst ` set entries \<longrightarrow> res k = result k)"
  using assms
proof (induction entries arbitrary: result)
  case Nil
  then show ?case by simp
next
  case (Cons x entries)
  obtain k ev where x: "x = (k, ev)" by (cases x)
  from Cons.prems obtain v where v: "resolve_field_spec sv kms credentials k ev = Inr v"
    by (auto simp: x)
  have knot: "k \<notin> fst ` set entries" using Cons.prems(2) by (simp add: x)
  have step: "fst (credentials_loop sv kms credentials (x # entries) result)
      = fst (credentials_loop sv kms credentials entries (result(k \<mapsto> v)))"
    unfolding x by (simp only: credentials_loop_step v sum.case)
  have pre: "\<forall>x\<in>set entries. \<exists>v. resolve_field_spec sv kms credentials (fst x) (snd x) = Inr v"
    "distinct (map fst entries)"
    using Cons.prems by simp_all
  obtain res where res: "fst (credentials_loop sv kms credentials entries (result(k \<mapsto> v))) = Inr res"
    "dom res = dom (result(k \<mapsto> v)) \<union> fst ` set entries"
    "\<forall>x\<in>set entries. resolve_field_spec sv kms credentials (fst x) (snd x)
            = Inr (the (res (fst x)))"
    "\<forall>k'. k' \<notin> fst ` set entries \<longrightarrow> res k' = (result(k \<mapsto> v)) k'"
    using Cons.IH [OF pre, of "result(k \<mapsto> v)"] by blast
  have rk: "res k = Some v" using res(4) knot by simp
  have "fst (credentials_loop sv kms credentials (x # entries) result) = Inr res"
    by (simp only: step res(1))
  moreover have "dom res = dom result \<union> fst ` set (x # entries)"
    using res(2) by (auto simp: x)
  moreover have "\<forall>y\<in>set (x # entries). resolve_field_spec sv kms credentials (fst y) (snd y)
            = Inr (the (res (fst y)))"
    using res(3) rk v by (auto simp: x)
  moreover have "\<forall>k'. k' \<notin> fst ` set (x # entries) \<longrightarrow> res k' = result k'"
    using res(4) by (auto simp: x)
  ultimately show ?case by blast
qed

lemma distinct_cred_mapping: "distinct (map fst cred_mapping)"
  by (simp add: cred_mapping_def)

lemma cred_keys:
  "fst ` set cred_mapping =
     {''consumer_key'', ''consumer_secret'', ''access_token_key'', ''access_token_secret''}"
  by (auto simp: cred_mapping_def)

text \<open>
  Claim C4. Given that the credentials file was loaded: when each of the four fields
  resolves, \<^verbatim>\<open>_load_credentials\<close> returns a dictionary whose keys are exactly the four
  fields and whose values are the resolved ones; a field that does not resolve, all the
  fields before it having resolved, makes the method raise that field's error; a field
  present in the file resolves to the raw value of the file when \<open>use_kms\<close> is off and,
  when it is on, to the plaintext that \<open>kms_decrypt\<close> answers for that value (to the
  failure of the client when the client cannot be built); a field absent from the file
  resolves to the raw value of its environment variable, otherwise to the
  missing-credential error that names it; and whatever the method returns has exactly
  the four fields, each with its resolved value.
\<close>

theorem credential_resolution:
  assumes "read_credentials sv (credentials_file cfg) = Inr credentials"
  shows "((\<forall>x\<in>set cred_mapping.
             \<exists>v. resolve_field_spec sv (use_kms cfg) credentials (fst x) (snd x) = Inr v)
          \<longrightarrow> (\<exists>res. fst (load_credentials sv cfg) = Inr res
                \<and> dom res = {''consumer_key'', ''consumer_secret'', ''access_token_key'',
                              ''access_token_secret''}
                \<and> (\<forall>x\<in>set cred_mapping. \<forall>v.
                      resolve_field_spec sv (use_kms cfg) credentials (fst x) (snd x) = Inr v
                      \<longrightarrow> res (fst x) = Some v)))
       \<and> (\<forall>pre key env_var post e.
            cred_mapping = pre @ (key, env_var) # post
            \<and> (\<forall>x\<in>set pre.
                 \<exists>v. resolve_field_spec sv (use_kms cfg) credentials (fst x) (snd x) = Inr v)
            \<and> resolve_field_spec sv (use_kms cfg) credentials key env_var = Inl e
            \<longrightarrow> fst (load_credentials sv cfg) = Inl e)
       \<and> (\<forall>key env_var val.
            (credentials key = Some val \<and> \<not> use_kms cfg
               \<longrightarrow> resolve_field_spec sv (use_kms cfg) credentials key env_var = Inr val)
            \<and> (credentials key = Some val \<and> use_kms cfg \<and> kms_client sv = None
               \<longrightarrow> resolve_field_spec sv (use_kms cfg) credentials key env_var
                     = kms_decrypt sv val)
            \<and> (\<forall>e. credentials key = Some val \<and> use_kms cfg \<and> kms_client sv = Some e
               \<longrightarrow> resolve_field_spec sv (use_kms cfg) credentials key env_var = Inl e)
            \<and> (credentials key = None \<and> environ sv env_var = Some val
               \<longrightarrow> resolve_field_spec sv (use_kms cfg) credentials key env_var = Inr val)
            \<and> (credentials key = None \<and> environ sv env_var = None
               \<longrightarrow> resolve_field_spec sv (use_kms cfg) credentials key env_var
                     = Inl (ValueError (''Missing credential: '' @ key))))
       \<and> (\<forall>res. fst (load_credentials sv cfg) = Inr res
            \<longrightarrow> dom res = {''consumer_key'', ''consumer_secret'', ''access_token_key'',
                              ''access_token_secret''}
                \<and> (\<forall>x\<in>set cred_mapping.
                      resolve_field_spec sv (use_kms cfg) credentials (fst x) (snd x)
                        = Inr (the (res (fst x)))))"
proof -
  have run: "load_credentials sv cfg =
      credentials_loop sv (use_kms cfg) credentials cred_mapping Map.empty"
    using assms by (simp add: load_credentials_def)
  have ok: "\<exists>res. fst (load_credentials sv cfg) = Inr res
                \<and> dom res = {''consumer_key'', ''consumer_secret'', ''access_token_key'',
                              ''access_token_secret''}
                \<and> (\<forall>x\<in>set cred_mapping. \<forall>v.
                      resolve_field_spec sv (use_kms cfg) credentials (fst x) (snd x) = Inr v
                      \<longrightarrow> res (fst x) = Some v)"
    if all: "\<forall>x\<in>set cred_mapping.
             \<exists>v. resolve_field_spec sv (use_kms cfg) credentials (fst x) (snd x) = Inr v"
  proof -
    obtain res where res: "fst (load_credentials sv cfg) = Inr res"
      "dom res = dom (Map.empty :: string \<rightharpoonup> string) \<union> fst ` set cred_mapping"
      "\<forall>x\<in>set cred_mapping. resolve_field_spec sv (use_kms cfg) credentials (fst x) (snd x)
            = Inr (the (res (fst x)))"
      unfolding run
      using credentials_loop_succeeds [OF all distinct_cred_mapping, of Map.empty] by blast
    have "res (fst x) = Some v"
      if "x \<in> set cred_mapping"
        "resolve_field_spec sv (use_kms cfg) credentials (fst x) (snd x) = Inr v" for x v
    proof -
      have "fst x \<in> dom res" using res(2) that(1) by auto
      then obtain w where w: "res (fst x) = Some w" by auto
      with res(3) that show ?thesis by auto
    qed
    with res(1,2) show ?thesis by (auto simp: cred_keys)
  qed
  have bad: "fst (load_credentials sv cfg) = Inl e"
    if "cred_mapping = pre @ (key, env_var) # post"
      "\<forall>x\<in>set pre. \<exists>v. resolve_field_spec sv (use_kms cfg) credentials (fst x) (snd x) = Inr v"
      "resolve_field_spec sv (use_kms cfg) credentials key env_var = Inl e"
    for pre key env_var post e
    unfolding run that(1) using that(2,3) by (rule credentials_loop_fails_at)
  have by_cases: "(credentials key = Some val \<and> \<not> use_kms cfg
               \<longrightarrow> resolve_field_spec sv (use_kms cfg) credentials key env_var = Inr val)
            \<and> (credentials key = Some val \<and> use_kms cfg \<and> kms_client sv = None
               \<longrightarrow> resolve_field_spec sv (use_kms cfg) credentials key env_var
                     = kms_decrypt sv val)
            \<and> (\<forall>e. credentials key = Some val \<and> use_kms cfg \<and> kms_client sv = Some e
               \<longrightarrow> resolve_field_spec sv (use_kms cfg) credentials key env_var = Inl e)
            \<and> (credentials key = None \<and> environ sv env_var = Some val
               \<longrightarrow> resolve_field_spec sv (use_kms cfg) credentials key env_var = Inr val)
            \<and> (credentials key = None \<and> environ sv env_var = None
               \<longrightarrow> resolve_field_spec sv (use_kms cfg) credentials key env_var
                     = Inl (ValueError (''Missing credential: '' @ key)))"
    for key env_var val
    by (simp add: resolve_field_spec_def)
  have A: "(\<forall>x\<in>set cred_mapping.
             \<exists>v. resolve_field_spec sv (use_kms cfg) credentials (fst x) (snd x) = Inr v)
          \<longrightarrow> (\<exists>res. fst (load_credentials sv cfg) = Inr res
                \<and> dom res = {''consumer_key'', ''consumer_secret'', ''access_token_key'',
                              ''access_token_secret''}
                \<and> (\<forall>x\<in>set cred_mapping. \<forall>v.
                      resolve_field_spec sv (use_kms cfg) credentials (fst x) (snd x) = Inr v
                      \<longrightarrow> res (fst x) = Some v))"
    using ok by (rule impI)
  have B: "\<forall>pre key env_var post e.
            cred_mapping = pre @ (key, env_var) # post
            \<and> (\<forall>x\<in>set pre.
                 \<exists>v. resolve_field_spec sv (use_kms cfg) credentials (fst x) (snd x) = Inr v)
            \<and> resolve_field_spec sv (use_kms cfg) credentials key env_var = Inl e
            \<longrightarrow> fst (load_credentials sv cfg) = Inl e"
    using bad by (intro allI impI) (elim conjE)
  have C: "\<forall>key env_var val.
            (credentials key = Some val \<and> \<not> use_kms cfg
               \<longrightarrow> resolve_field_spec sv (use_kms cfg) credentials key env_var = Inr val)
            \<and> (credentials key = Some val \<and> use_kms cfg \<and> kms_client sv = None
               \<longrightarrow> resolve_field_spec sv (use_kms cfg) credentials key env_var
                     = kms_decrypt sv val)
            \<and> (\<forall>e. credentials key = Some val \<and> use_kms cfg \<and> kms_client sv = Some e
               \<longrightarrow> resolve_field_spec sv (use_kms cfg) credentials key env_var = Inl e)
            \<and> (credentials key = None \<and> environ sv env_var = Some val
               \<longrightarrow> resolve_field_spec sv (use_kms cfg) credentials key env_var = Inr val)
            \<and> (credentials key = None \<and> environ sv env_var = None
               \<longrightarrow> resolve_field_spec sv (use_kms cfg) credentials key env_var
                     = Inl (ValueError (''Missing credential: '' @ key)))"
    using by_cases by (intro allI)
  have D: "\<forall>res. fst (load_credentials sv cfg) = Inr res
            \<longrightarrow> dom res = {''consumer_key'', ''consumer_secret'', ''access_token_key'',
                              ''access_token_secret''}
                \<and> (\<forall>x\<in>set cred_mapping.
                      resolve_field_spec sv (use_kms cfg) credentials (fst x) (snd x)
                        = Inr (the (res (fst x))))"
  proof (intro allI impI)
    fix res
    assume loaded: "fst (load_credentials sv cfg) = Inr res"
    have all: "\<forall>x\<in>set cred_mapping.
        \<exists>v. resolve_field_spec sv (use_kms cfg) credentials (fst x) (snd x) = Inr v"
    proof
      fix x
      assume x: "x \<in> set cred_mapping"
      show "\<exists>v. resolve_field_spec sv (use_kms cfg) credentials (fst x) (snd x) = Inr v"
      proof (cases "resolve_field_spec sv (use_kms cfg) credentials (fst x) (snd x)")
        case (Inl e)
        have "(fst x, snd x) \<in> set cred_mapping" using x by simp
        from credentials_loop_fails [OF this Inl, of Map.empty]
        obtain e' where "fst (load_credentials sv cfg) = Inl e'"
          unfolding run ..
        with loaded show ?thesis by simp
      next
        case (Inr v)
        then show ?thesis ..
      qed
    qed
    from ok [OF all] obtain res' where res': "fst (load_credentials sv cfg) = Inr res'
        \<and> dom res' = {''consumer_key'', ''consumer_secret'', ''access_token_key'',
                        ''access_token_secret''}
        \<and> (\<forall>x\<in>set cred_mapping. \<forall>v.
              resolve_field_spec sv (use_kms cfg) credentials (fst x) (snd x) = Inr v
              \<longrightarrow> res' (fst x) = Some v)" ..
    have same: "res' = res" using conjunct1 [OF res'] loaded by simp
    note props = res' [unfolded same]
    have vals: "resolve_field_spec sv (use_kms cfg) credentials (fst x) (snd x)
        = Inr (the (res (fst x)))" if x: "x \<in> set cred_mapping" for x
    proof -
      from bspec [OF all x] obtain v
        where v: "resolve_field_spec sv (use_kms cfg) credentials (fst x) (snd x) = Inr v" ..
      have "res (fst x) = Some v"
        by (rule mp [OF spec [OF bspec [OF conjunct2 [OF conjunct2 [OF props]] x]] v])
      with v show ?thesis by simp
    qed
    have "\<forall>x\<in>set cred_mapping.
              resolve_field_spec sv (use_kms cfg) credentials (fst x) (snd x)
                = Inr (the (res (fst x)))"
      using vals by (rule ballI)
    with conjunct1 [OF conjunct2 [OF props]]
    show "dom res = {''consumer_key'', ''consumer_secret'', ''access_token_key'',
                     ''access_token_secret''}
        \<and> (\<forall>x\<in>set cred_mapping.
              resolve_field_spec sv (use_kms cfg) credentials (fst x) (snd x)
                = Inr (the (res (fst x))))"
      by (rule conjI)
  qed
  show ?thesis
    by (rule conjI [OF A conjI [OF B conjI [OF C D]]])
qed

theorem credential_resolution_witness:
  "(\<exists>res. fst (load_credentials kms_services ((policy 3 2 10)\<lparr>use_kms := True\<rparr>)) = Inr res
      \<and> dom res = {''consumer_key'', ''consumer_secret'', ''access_token_key'',
                    ''access_token_secret''}
      \<and> res ''consumer_key'' = Some ''plain-ck-file''
      \<and> res ''access_token_secret'' = Some ''ats-env'')
   \<and> (\<exists>res. fst (load_credentials (file_services secret_environ) (policy 3 2 10)) = Inr res
      \<and> dom res = {''consumer_key'', ''consumer_secret'', ''access_token_key'',
                    ''access_token_secret''}
      \<and> res ''consumer_key'' = Some ''ck-file''
      \<and> res ''access_token_secret'' = Some ''ats-env'')
   \<and> fst (load_credentials (file_services Map.empty) (policy 3 2 10))
       = Inl (ValueError ''Missing credential: access_token_secret'')"
proof -
  have m1: "(''consumer_key'', ''TWITTER_CONSUMER_KEY'') \<in> set cred_mapping"
    and m4: "(''access_token_secret'', ''TWITTER_ACCESS_TOKEN_SECRET'') \<in> set cred_mapping"
    by (simp_all add: cred_mapping_def)
  have loaded: "\<exists>res. fst (load_credentials sv cfg) = Inr res
      \<and> dom res = {''consumer_key'', ''consumer_secret'', ''access_token_key'',
                    ''access_token_secret''}
      \<and> res ''consumer_key'' = Some v1
      \<and> res ''access_token_secret'' = Some v4"
    if f: "read_credentials sv (credentials_file cfg) = Inr three_of_four"
      and all: "\<forall>x\<in>set cred_mapping.
        \<exists>v. resolve_field_spec sv (use_kms cfg) three_of_four (fst x) (snd x) = Inr v"
      and r1: "resolve_field_spec sv (use_kms cfg) three_of_four
        (fst (''consumer_key'', ''TWITTER_CONSUMER_KEY''))
        (snd (''consumer_key'', ''TWITTER_CONSUMER_KEY'')) = Inr v1"
      and r4: "resolve_field_spec sv (use_kms cfg) three_of_four
        (fst (''access_token_secret'', ''TWITTER_ACCESS_TOKEN_SECRET''))
        (snd (''access_token_secret'', ''TWITTER_ACCESS_TOKEN_SECRET'')) = Inr v4"
    for sv cfg v1 v4
  proof -
    have "\<exists>res. fst (load_credentials sv cfg) = Inr res
        \<and> dom res = {''consumer_key'', ''consumer_secret'', ''access_token_key'',
                  ''access_token_secret''}
        \<and> (\<forall>x\<in>set cred_mapping. \<forall>v.
             resolve_field_spec sv (use_kms cfg) three_of_four (fst x) (snd x) = Inr v
             \<longrightarrow> res (fst x) = Some v)"
      by (rule mp [OF conjunct1 [OF credential_resolution [OF f]] all])
    then obtain res where r: "fst (load_credentials sv cfg) = Inr res
        \<and> dom res = {''consumer_key'', ''consumer_secret'', ''access_token_key'',
                  ''access_token_secret''}
        \<and> (\<forall>x\<in>set cred_mapping. \<forall>v.
             resolve_field_spec sv (use_kms cfg) three_of_four (fst x) (snd x) = Inr v
             \<longrightarrow> res (fst x) = Some v)" ..
    note res = conjunct1 [OF r] conjunct1 [OF conjunct2 [OF r]] conjunct2 [OF conjunct2 [OF r]]
    have a1: "res ''consumer_key'' = Some v1"
      by (rule mp [OF spec [OF bspec [OF res(3) m1]] r1, simplified])
    have a4: "res ''access_token_secret'' = Some v4"
      by (rule mp [OF spec [OF bspec [OF res(3) m4]] r4, simplified])
    show ?thesis
      by (rule exI [of _ res]) (intro conjI res(1) res(2) a1 a4)
  qed
  let ?on = "(policy 3 2 10)\<lparr>use_kms := True\<rparr>"
  let ?off = "policy 3 2 10"
  let ?sv = "file_services secret_environ"
  let ?sv' = "file_services Map.empty"
  have on: "\<exists>res. fst (load_credentials kms_services ?on) = Inr res
      \<and> dom res = {''consumer_key'', ''consumer_secret'', ''access_token_key'',
                    ''access_token_secret''}
      \<and> res ''consumer_key'' = Some ''plain-ck-file''
      \<and> res ''access_token_secret'' = Some ''ats-env''"
    by (rule loaded) (simp_all add: credential_simps kms_services_def)
  have off: "\<exists>res. fst (load_credentials ?sv ?off) = Inr res
      \<and> dom res = {''consumer_key'', ''consumer_secret'', ''access_token_key'',
                    ''access_token_secret''}
      \<and> res ''consumer_key'' = Some ''ck-file''
      \<and> res ''access_token_secret'' = Some ''ats-env''"
    by (rule loaded) (simp_all add: credential_simps)
  have f': "read_credentials ?sv' (credentials_file ?off) = Inr three_of_four"
    by (simp add: file_services_def plain_services_def)
  have split: "cred_mapping =
      [(''consumer_key'', ''TWITTER_CONSUMER_KEY''),
       (''consumer_secret'', ''TWITTER_CONSUMER_SECRET''),
       (''access_token_key'', ''TWITTER_ACCESS_TOKEN'')]
      @ (''access_token_secret'', ''TWITTER_ACCESS_TOKEN_SECRET'') # []"
    by (simp add: cred_mapping_def)
  have pre: "\<forall>x\<in>set [(''consumer_key'', ''TWITTER_CONSUMER_KEY''),
       (''consumer_secret'', ''TWITTER_CONSUMER_SECRET''),
       (''access_token_key'', ''TWITTER_ACCESS_TOKEN'')].
      \<exists>v. resolve_field_spec ?sv' (use_kms ?off) three_of_four (fst x) (snd x) = Inr v"
    by (simp add: credential_simps)
  have missing: "resolve_field_spec ?sv' (use_kms ?off) three_of_four
      ''access_token_secret'' ''TWITTER_ACCESS_TOKEN_SECRET''
      = Inl (ValueError ''Missing credential: access_token_secret'')"
    by (simp add: credential_simps)
  have b: "fst (load_credentials ?sv' ?off)
      = Inl (ValueError ''Missing credential: access_token_secret'')"
    by (rule conjunct1 [OF conjunct2 [OF credential_resolution [OF f']], rule_format,
          OF conjI [OF split conjI [OF pre missing]]])
  show ?thesis
    by (rule conjI [OF on conjI [OF off b]])
qed

text \<open>
  Claim C8. When the credentials file is absent, \<^verbatim>\<open>_load_credentials\<close> raises the
  \<^verbatim>\<open>FileNotFoundError\<close> of the read after one error record for the file, whatever the
  environment variables hold: no field is resolved and no fallback is taken.
\<close>

theorem credentials_file_absent:
  assumes "read_credentials sv (credentials_file cfg) = Inl (FileNotFoundError m)"
  shows "load_credentials (sv\<lparr>environ := env\<rparr>) cfg =
           (Inl (FileNotFoundError m),
            [Log ERROR (CredentialsFileNotFound (credentials_file cfg))])"
  using assms by (simp add: load_credentials_def)

theorem credentials_file_absent_witness:
  "all_set_environ ''TWITTER_CONSUMER_KEY'' = Some ''ck''
   \<and> load_credentials (plain_services\<lparr>environ := all_set_environ\<rparr>) (policy 3 2 10) =
       (Inl (FileNotFoundError ''credentials.json''),
        [Log ERROR (CredentialsFileNotFound ''credentials.json'')])"
proof -
  have "read_credentials plain_services (credentials_file (policy 3 2 10))
      = Inl (FileNotFoundError ''credentials.json'')"
    by (simp add: plain_services_def policy_def)
  from credentials_file_absent [OF this, of all_set_environ] show ?thesis
    by (simp add: policy_def all_set_environ_def)
qed

text \<open>
  Claim C9. With decryption enabled, a field that is present in the file and whose
  decryption fails makes \<^verbatim>\<open>_load_credentials\<close> raise, whatever the environment
  variables hold; when the fields before it resolve, the exception raised is the one of
  the decryption.
\<close>

theorem decryption_failure_is_fatal:
  assumes "read_credentials sv (credentials_file cfg) = Inr credentials"
    and "use_kms cfg"
    and "cred_mapping = pre @ (key, env_var) # post"
    and "credentials key = Some value"
    and "fst (decrypt_with_kms sv value) = Inl e"
  shows "(\<exists>e'. fst (load_credentials (sv\<lparr>environ := env\<rparr>) cfg) = Inl e')
       \<and> ((\<forall>x\<in>set pre. \<exists>v. resolve_field_spec (sv\<lparr>environ := env\<rparr>) True credentials
                              (fst x) (snd x) = Inr v)
            \<longrightarrow> fst (load_credentials (sv\<lparr>environ := env\<rparr>) cfg) = Inl e)"
proof -
  let ?sv = "sv\<lparr>environ := env\<rparr>"
  have run: "load_credentials ?sv cfg =
      credentials_loop ?sv True credentials (pre @ (key, env_var) # post) Map.empty"
    using assms(1,2,3) by (simp add: load_credentials_def)
  have "fst (decrypt_with_kms ?sv value) = fst (decrypt_with_kms sv value)"
    by (simp add: decrypt_with_kms_result split: option.splits)
  then have "(case kms_client ?sv of Some e \<Rightarrow> Inl e | None \<Rightarrow> kms_decrypt ?sv value) = Inl e"
    using assms(5) by (simp only: decrypt_with_kms_result)
  then have r: "resolve_field_spec ?sv True credentials key env_var = Inl e"
    using assms(4) by (simp add: resolve_field_spec_def)
  have "\<exists>e'. fst (load_credentials ?sv cfg) = Inl e'"
    unfolding run using r by (intro credentials_loop_fails [of key env_var]) simp_all
  moreover have "fst (load_credentials ?sv cfg) = Inl e"
    if "\<forall>x\<in>set pre. \<exists>v. resolve_field_spec ?sv True credentials (fst x) (snd x) = Inr v"
    unfolding run using that r by (rule credentials_loop_fails_at)
  ultimately show ?thesis by blast
qed

theorem decryption_failure_is_fatal_witness:
  "all_set_environ ''TWITTER_CONSUMER_KEY'' = Some ''ck''
   \<and> fst (load_credentials (kms_down_services\<lparr>environ := all_set_environ\<rparr>)
            ((policy 3 2 10)\<lparr>use_kms := True\<rparr>))
       = Inl (OtherException ''AccessDenied'')"
proof -
  let ?cfg = "(policy 3 2 10)\<lparr>use_kms := True\<rparr>"
  have 1: "read_credentials kms_down_services (credentials_file ?cfg) = Inr three_of_four"
    by (simp add: credential_simps kms_down_services_def)
  have 2: "use_kms ?cfg" by simp
  have 3: "cred_mapping = [] @ (''consumer_key'', ''TWITTER_CONSUMER_KEY'') #
      [(''consumer_secret'', ''TWITTER_CONSUMER_SECRET''),
       (''access_token_key'', ''TWITTER_ACCESS_TOKEN''),
       (''access_token_secret'', ''TWITTER_ACCESS_TOKEN_SECRET'')]"
    by (simp add: cred_mapping_def)
  have 4: "three_of_four ''consumer_key'' = Some ''ck-file''"
    by (simp add: three_of_four_def)
  have 5: "fst (decrypt_with_kms kms_down_services ''ck-file'')
      = Inl (OtherException ''AccessDenied'')"
    by (simp add: credential_simps kms_down_services_def)
  have env: "all_set_environ ''TWITTER_CONSUMER_KEY'' = Some ''ck''"
    by (simp add: all_set_environ_def)
  from decryption_failure_is_fatal [OF 1 2 3 4 5, of all_set_environ] env
  show ?thesis by simp
qed

subsection \<open>Posting\<close>

lemma send_tweet_invalid:
  "t = [] \<or> 280 < length t \<Longrightarrow>
     send_tweet sv cfg t = (Inl (ValueError ''Tweet text must be 1-280 characters''), [])"
  by (auto simp: send_tweet_def)

lemma send_tweet_valid:
  "t \<noteq> [] \<Longrightarrow> length t \<le> 280 \<Longrightarrow>
     fst (send_tweet sv cfg t) =
       Inr (case fst (retry_with_backoff sv cfg (update_status sv t)) of
              Inr r \<Rightarrow> True | Inl e \<Rightarrow> False)"
  by (auto simp: send_tweet_def split: prod.splits sum.splits)

text \<open>
  Claim C5. \<^verbatim>\<open>send_tweet\<close> raises exactly when the text is empty or longer than 280
  characters; it then raises the validation error without any effect (no invocation of
  the operation, no run of the executor); a text of 1 to 280 characters makes it
  return a boolean, whatever the services do.
\<close>

theorem send_tweet_validation:
  "((\<exists>e. fst (send_tweet sv cfg t) = Inl e) \<longleftrightarrow> (length t = 0 \<or> 280 < length t))
   \<and> (length t = 0 \<or> 280 < length t \<longrightarrow>
        send_tweet sv cfg t = (Inl (ValueError ''Tweet text must be 1-280 characters''), []))
   \<and> (1 \<le> length t \<and> length t \<le> 280 \<longrightarrow> (\<exists>b. fst (send_tweet sv cfg t) = Inr b))"
proof (cases "t = [] \<or> 280 < length t")
  case True
  then show ?thesis using send_tweet_invalid [of t sv cfg] by auto
next
  case False
  then have "t \<noteq> []" "length t \<le> 280" by auto
  from send_tweet_valid [OF this, of sv cfg] False show ?thesis by auto
qed

theorem send_tweet_validation_witness:
  "send_tweet down_services (policy 3 2 10) [] =
     (Inl (ValueError ''Tweet text must be 1-280 characters''), [])
   \<and> send_tweet down_services (policy 3 2 10) (replicate 281 120) =
     (Inl (ValueError ''Tweet text must be 1-280 characters''), [])
   \<and> (\<exists>b. fst (send_tweet down_services (policy 3 2 10) [120]) = Inr b)
   \<and> (\<exists>b. fst (send_tweet down_services (policy 3 2 10) (replicate 280 120)) = Inr b)"
  using send_tweet_validation [of down_services "policy 3 2 10" "[]"]
    send_tweet_validation [of down_services "policy 3 2 10" "replicate 281 120"]
    send_tweet_validation [of down_services "policy 3 2 10" "[120]"]
    send_tweet_validation [of down_services "policy 3 2 10" "replicate 280 120"]
  by simp

text \<open>
  Claim C6. For a text that passes validation, \<^verbatim>\<open>send_tweet\<close> returns \<open>True\<close> when the
  executor returns and \<open>False\<close> when the executor raises; in particular it returns
  \<open>True\<close> when the posting succeeds at an attempt within the policy after failures
  whose delays were slept, and \<open>False\<close> when the posting fails at every attempt.
\<close>

theorem send_tweet_outcome:
  assumes "t \<noteq> []" and "length t \<le> 280"
  shows "(\<forall>r. fst (retry_with_backoff sv cfg (update_status sv t)) = Inr r
            \<longrightarrow> fst (send_tweet sv cfg t) = Inr True)
       \<and> (\<forall>e. fst (retry_with_backoff sv cfg (update_status sv t)) = Inl e
            \<longrightarrow> fst (send_tweet sv cfg t) = Inr False)
       \<and> (\<forall>k r. 1 \<le> k \<and> int k \<le> max_attempts cfg
              \<and> (\<forall>i<k - 1. isl (update_status sv t i))
              \<and> update_status sv t (k - 1) = Inr r
              \<and> (\<forall>i<k - 1. time_sleep sv (delay cfg i) = None)
            \<longrightarrow> fst (send_tweet sv cfg t) = Inr True)
       \<and> (1 \<le> max_attempts cfg
              \<and> (\<forall>i. int i < max_attempts cfg \<longrightarrow> isl (update_status sv t i))
              \<and> (\<forall>i. int i < max_attempts cfg - 1 \<longrightarrow> time_sleep sv (delay cfg i) = None)
            \<longrightarrow> fst (send_tweet sv cfg t) = Inr False)"
proof -
  let ?f = "update_status sv t"
  let ?err = "\<lambda>i. projl (?f i)"
  note v = send_tweet_valid [OF assms, of sv cfg]
  have a: "\<And>r. fst (retry_with_backoff sv cfg ?f) = Inr r \<Longrightarrow> fst (send_tweet sv cfg t) = Inr True"
    using v by simp
  have b: "\<And>e. fst (retry_with_backoff sv cfg ?f) = Inl e \<Longrightarrow> fst (send_tweet sv cfg t) = Inr False"
    using v by simp
  have c: "fst (send_tweet sv cfg t) = Inr True"
    if "1 \<le> k" "int k \<le> max_attempts cfg" "\<forall>i<k - 1. isl (?f i)" "?f (k - 1) = Inr r"
      "\<forall>i<k - 1. time_sleep sv (delay cfg i) = None" for k r
  proof -
    have "attempts sv cfg ?f [0 ..< nat (max_attempts cfg)] =
        (Inr (Some r), concat (map (failed_round cfg ?err) [0 ..< 0 + (k - 1)]) @ [Invoke])"
      using that by (intro attempts_success_at) auto
    then show ?thesis by (intro a) (simp add: retry_with_backoff_def)
  qed
  have d: "fst (send_tweet sv cfg t) = Inr False"
    if "1 \<le> max_attempts cfg" "\<forall>i. int i < max_attempts cfg \<longrightarrow> isl (?f i)"
      "\<forall>i. int i < max_attempts cfg - 1 \<longrightarrow> time_sleep sv (delay cfg i) = None"
  proof -
    define n where "n = nat (max_attempts cfg) - 1"
    have "attempts sv cfg ?f [0 ..< nat (max_attempts cfg)] =
        (Inl (?err (0 + n)), concat (map (failed_round cfg ?err) [0 ..< 0 + n])
           @ [Invoke, Log ERROR (OperationFailedAfter (max_attempts cfg) (?err (0 + n)))])"
      using that by (intro attempts_all_fail) (auto simp: n_def)
    then show ?thesis by (intro b) (simp add: retry_with_backoff_def)
  qed
  from a b c d show ?thesis by blast
qed

theorem send_tweet_outcome_witness:
  "fst (send_tweet (flaky_services 3) (policy 3 2 10) [104, 105]) = Inr True
   \<and> fst (send_tweet down_services (policy 2 5 3) [104, 105]) = Inr False"
proof -
  have 1: "[104, 105] \<noteq> ([]::pystr)" "length ([104, 105]::pystr) \<le> 280"
    by simp_all
  have up: "fst (retry_with_backoff (flaky_services 3) (policy 3 2 10)
      (update_status (flaky_services 3) [104, 105])) = Inr (Some ''posted'')"
    by (simp add: flaky_services_def run_simps)
  have down: "fst (retry_with_backoff down_services (policy 2 5 3)
      (update_status down_services [104, 105])) = Inl (failure 1)"
    by (simp add: down_services_def run_simps)
  show ?thesis
    using send_tweet_outcome [OF 1, of "flaky_services 3" "policy 3 2 10"]
      send_tweet_outcome [OF 1, of down_services "policy 2 5 3"] up down
    by simp
qed

text \<open>
  Claim C10. With an empty list of candidate messages, \<^verbatim>\<open>send_random_tweet\<close> returns
  \<open>False\<close> after one error record: nothing is selected, validated or posted, and
  nothing is raised.
\<close>

theorem no_tweets_configured:
  "tweets cfg = [] \<Longrightarrow> send_random_tweet sv cfg = (Inr False, [Log ERROR NoTweetsConfigured])"
  by (simp add: send_random_tweet_def)

theorem no_tweets_configured_witness:
  "tweets (policy 3 2 10) = []
   \<and> send_random_tweet plain_services (policy 3 2 10) = (Inr False, [Log ERROR NoTweetsConfigured])"
proof -
  have "tweets (policy 3 2 10) = []"
    by (simp add: policy_def)
  then show ?thesis
    using no_tweets_configured [of "policy 3 2 10" plain_services] by simp
qed

subsection \<open>The entry point\<close>

text \<open>
  Claim C7. For all services and every event and context, \<^verbatim>\<open>handler\<close> returns a
  response with a status code and a body and raises nothing; the status code is 200
  exactly when the bot was built and the send returned \<open>True\<close>, and 500 otherwise.
\<close>

theorem handler_returns:
  "\<exists>r. fst (handler sv event ctx) = Inr r
     \<and> (statusCode r = 200 \<or> statusCode r = 500)
     \<and> map_of (body r) ''success'' = Some (JBool (statusCode r = 200))
     \<and> ((statusCode r = 200)
          = (\<exists>cfg. fst (TwitterBot sv ''config.json'') = Inr cfg
                \<and> fst (send_random_tweet sv cfg) = Inr True))"
proof (cases "TwitterBot sv ''config.json''")
  case (Pair b tr)
  show ?thesis
  proof (cases b)
    case (Inl e)
    with Pair show ?thesis
      by (simp add: handler_def handler_try_def)
  next
    case (Inr cfg)
    note bot = Pair Inr
    show ?thesis
    proof (cases "send_random_tweet sv cfg")
      case (Pair s tr')
      show ?thesis
      proof (cases s)
        case (Inl e)
        with bot Pair show ?thesis
          by (simp add: handler_def handler_try_def)
      next
        case (Inr success)
        with bot Pair show ?thesis
          by (cases success) (simp_all add: handler_def handler_try_def)
      qed
    qed
  qed
qed

theorem handler_returns_witness:
  "fst (handler working_services () ()) =
     Inr \<lparr>statusCode = 200,
          body = [(''success'', JBool True), (''message'', JStr ''Tweet sent successfully'')]\<rparr>
   \<and> fst (handler plain_services () ()) =
     Inr \<lparr>statusCode = 500,
          body = [(''success'', JBool False),
                  (''error'', JStr ''Configuration file config.json not found'')]\<rparr>"
proof -
  have run: "fst (handler working_services () ()) =
     Inr \<lparr>statusCode = 200,
          body = [(''success'', JBool True), (''message'', JStr ''Tweet sent successfully'')]\<rparr>"
    by (simp add: handler_simps credential_simps run_simps)
  have down: "fst (handler plain_services () ()) =
     Inr \<lparr>statusCode = 500,
          body = [(''success'', JBool False),
                  (''error'', JStr ''Configuration file config.json not found'')]\<rparr>"
    by (simp add: handler_simps credential_simps run_simps)
  have "\<exists>r. fst (handler working_services () ()) = Inr r
     \<and> (statusCode r = 200 \<or> statusCode r = 500)
     \<and> map_of (body r) ''success'' = Some (JBool (statusCode r = 200))
     \<and> ((statusCode r = 200)
          = (\<exists>cfg. fst (TwitterBot working_services ''config.json'') = Inr cfg
                \<and> fst (send_random_tweet working_services cfg) = Inr True))"
    by (rule handler_returns)
  then have "\<exists>r. fst (handler working_services () ()) = Inr r" by (elim exE conjE) (rule exI)
  with run down show ?thesis by simp
qed

end
